theory Spec2Isabelle
  imports Main "HOL-Library.Char_ord" "HOL-Library.List_Lexorder" "HOL-Library.Multiset"
begin

section \<open>Errors and text\<close>

text \<open>
  The exceptions the core raises: \<open>ValueError\<close> with its message (raised by the field
  classes of \<open>task.py\<close> and by the date library), and \<open>OverflowError\<close> (raised by the
  date library when a date leaves the range 0001-01-01 .. 9999-12-31).
\<close>

datatype error = ValueError string | OverflowError

text \<open>
  A Python \<open>str\<close> is a sequence of code points. The model uses \<open>string\<close>, whose
  characters are the code points below 256; \<open>of_char\<close> reads the code point.
  \<open>isspace\<close> and \<open>isdigit\<close> are \<open>str.isspace\<close> and \<open>str.isdigit\<close> on one character of
  that range (\<open>isdigit\<close> accepts the superscript digits U+00B2, U+00B3 and U+00B9 too);
  \<open>isdecimal\<close> is the class \<open>\d\<close> of the regular expressions of \<open>strptime\<close>.
\<close>

definition isspace :: "char \<Rightarrow> bool" where
  "isspace c = (let n = (of_char c :: nat) in
     (9 \<le> n \<and> n \<le> 13) \<or> (28 \<le> n \<and> n \<le> 32) \<or> n = 133 \<or> n = 160)"

definition isdecimal :: "char \<Rightarrow> bool" where
  "isdecimal c = (let n = (of_char c :: nat) in 48 \<le> n \<and> n \<le> 57)"

definition isdigit :: "char \<Rightarrow> bool" where
  "isdigit c = (let n = (of_char c :: nat) in
     (48 \<le> n \<and> n \<le> 57) \<or> n = 178 \<or> n = 179 \<or> n = 185)"

text \<open>\<open>str.strip()\<close>: leading and trailing whitespace removed.\<close>

definition strip :: "string \<Rightarrow> string" where
  "strip s = rev (dropWhile isspace (rev (dropWhile isspace s)))"

text \<open>\<open>str.isdigit()\<close>: every character is a digit and there is at least one.\<close>

definition str_isdigit :: "string \<Rightarrow> bool" where
  "str_isdigit s = (s \<noteq> [] \<and> list_all isdigit s)"

section \<open>Field types\<close>

text \<open>\<open>Name(value)\<close> for a text value: the stored value is the stripped text.\<close>

definition Name :: "string \<Rightarrow> error + string" where
  "Name v = (if strip v = [] then Inl (ValueError (''Name can'' @ [CHR 0x27] @ ''t be empty.''))
             else Inr (strip v))"

text \<open>\<open>Phone(value)\<close> for a text value; the result is the stored \<open>value\<close>.\<close>

definition Phone :: "string \<Rightarrow> error + string" where
  "Phone val = (let v = strip val in
     if \<not> str_isdigit v \<or> length v \<noteq> 10
     then Inl (ValueError ''Phone must contain exactly 10 digits.'')
     else Inr v)"

section \<open>Calendar dates\<close>

text \<open>
  The date library the program calls (\<open>datetime.date\<close>, \<open>timedelta\<close>), modelled after its
  reference implementation: a date is a year, a month and a day; dates are compared as the
  triples (year, month, day); \<open>toordinal\<close> counts days from 0001-01-01 (day 1), and adding
  a \<open>timedelta\<close> goes through the ordinal.
\<close>

record date =
  year :: nat
  month :: nat
  day :: nat

definition MINYEAR :: nat where "MINYEAR = 1"
definition MAXYEAR :: nat where "MAXYEAR = 9999"
definition MAXORDINAL :: int where "MAXORDINAL = 3652059"

definition DAYS_IN_MONTH :: "nat list" where
  "DAYS_IN_MONTH = [0, 31, 28, 31, 30, 31, 30, 31, 31, 30, 31, 30, 31]"

definition DAYS_BEFORE_MONTH :: "nat list" where
  "DAYS_BEFORE_MONTH = [0, 0, 31, 59, 90, 120, 151, 181, 212, 243, 273, 304, 334]"

definition is_leap :: "nat \<Rightarrow> bool" where
  "is_leap y = (y mod 4 = 0 \<and> (y mod 100 \<noteq> 0 \<or> y mod 400 = 0))"

definition days_before_year :: "nat \<Rightarrow> nat" where
  "days_before_year yr = (let y = yr - 1 in y * 365 + y div 4 - y div 100 + y div 400)"

definition days_in_month :: "nat \<Rightarrow> nat \<Rightarrow> nat" where
  "days_in_month y m = (if m = 2 \<and> is_leap y then 29 else DAYS_IN_MONTH ! m)"

definition days_before_month :: "nat \<Rightarrow> nat \<Rightarrow> nat" where
  "days_before_month y m = DAYS_BEFORE_MONTH ! m + (if m > 2 \<and> is_leap y then 1 else 0)"

definition ymd2ord :: "nat \<Rightarrow> nat \<Rightarrow> nat \<Rightarrow> nat" where
  "ymd2ord y m d = days_before_year y + days_before_month y m + d"

text \<open>
  \<open>ord2ymd\<close> is the library's inverse of \<open>ymd2ord\<close>: it splits the offset \<open>n - 1\<close> into
  400-year, 100-year, 4-year and 1-year cycles; \<open>month_day\<close> is its last part, which finds
  the month of the offset \<open>n\<close> within the year from an estimate that is exact or one too
  large.
\<close>

definition month_day :: "nat \<Rightarrow> bool \<Rightarrow> nat \<times> nat" where
  "month_day n leapyear =
    (let mth = (n + 50) div 32;
         preceding = DAYS_BEFORE_MONTH ! mth + (if mth > 2 \<and> leapyear then 1 else 0)
     in if preceding > n
        then let mth' = mth - 1;
                 preceding' = preceding - (DAYS_IN_MONTH ! mth' + (if mth' = 2 \<and> leapyear then 1 else 0))
             in (mth', n - preceding' + 1)
        else (mth, n - preceding + 1))"

definition ord2ymd :: "nat \<Rightarrow> nat \<times> nat \<times> nat" where
  "ord2ymd n0 =
    (let n = n0 - 1;
         n400 = n div 146097; n = n mod 146097;
         n100 = n div 36524; n = n mod 36524;
         n4 = n div 1461; n = n mod 1461;
         n1 = n div 365; n = n mod 365;
         yr = n400 * 400 + 1 + n100 * 100 + n4 * 4 + n1
     in if n1 = 4 \<or> n100 = 4 then (yr - 1, 12, 31)
        else (yr, month_day n (n1 = 3 \<and> (n4 \<noteq> 24 \<or> n100 = 3))))"

text \<open>The constructor's range check (\<open>date(year, month, day)\<close>).\<close>

definition valid_date :: "date \<Rightarrow> bool" where
  "valid_date d = (MINYEAR \<le> year d \<and> year d \<le> MAXYEAR \<and> 1 \<le> month d \<and> month d \<le> 12
     \<and> 1 \<le> day d \<and> day d \<le> days_in_month (year d) (month d))"

text \<open>Decimal rendering of a number (\<open>str(n)\<close>, \<open>%d\<close>).\<close>

definition digit_char :: "nat \<Rightarrow> char" where
  "digit_char n = ''0123456789'' ! n"

fun show_nat :: "nat \<Rightarrow> string" where
  "show_nat n = (if n < 10 then [digit_char n] else show_nat (n div 10) @ [digit_char (n mod 10)])"

declare show_nat.simps [simp del]

definition date_new :: "nat \<Rightarrow> nat \<Rightarrow> nat \<Rightarrow> error + date" where
  "date_new y m d =
    (if y < MINYEAR \<or> MAXYEAR < y then Inl (ValueError (''year '' @ show_nat y @ '' is out of range''))
     else if m < 1 \<or> 12 < m then Inl (ValueError ''month must be in 1..12'')
     else if d < 1 \<or> days_in_month y m < d then Inl (ValueError ''day is out of range for month'')
     else Inr \<lparr>year = y, month = m, day = d\<rparr>)"

text \<open>\<open>d.replace(year=y)\<close> builds a new date from the changed fields, with the range check.\<close>

definition replace_year :: "date \<Rightarrow> nat \<Rightarrow> error + date" where
  "replace_year d y = date_new y (month d) (day d)"

definition toordinal :: "date \<Rightarrow> nat" where
  "toordinal d = ymd2ord (year d) (month d) (day d)"

definition fromordinal :: "nat \<Rightarrow> date" where
  "fromordinal n = (case ord2ymd n of (y, m, d) \<Rightarrow> \<lparr>year = y, month = m, day = d\<rparr>)"

text \<open>Monday is 0, Sunday is 6.\<close>

definition weekday :: "date \<Rightarrow> nat" where
  "weekday d = (toordinal d + 6) mod 7"

definition date_lt :: "date \<Rightarrow> date \<Rightarrow> bool" where
  "date_lt a b = (year a < year b \<or> (year a = year b \<and>
     (month a < month b \<or> (month a = month b \<and> day a < day b))))"

definition date_le :: "date \<Rightarrow> date \<Rightarrow> bool" where
  "date_le a b = (date_lt a b \<or> a = b)"

text \<open>
  \<open>d + timedelta(days=k)\<close>. A \<open>timedelta\<close> of more than 999999999 days cannot be built and
  a result outside 1 .. MAXORDINAL is refused: both raise \<open>OverflowError\<close>, and the first
  implies the second.
\<close>

definition date_add :: "date \<Rightarrow> int \<Rightarrow> error + date" where
  "date_add d k = (let ord = int (toordinal d) + k in
     if 0 < ord \<and> ord \<le> MAXORDINAL then Inr (fromordinal (nat ord)) else Inl OverflowError)"

text \<open>
  \<open>strftime\<close> for the two formats the program uses. \<open>%d\<close> and \<open>%m\<close> are two digits and
  \<open>%Y\<close> is the year in four digits, zero-filled, as the library documents it (0001 .. 9999).
\<close>

definition zfill :: "nat \<Rightarrow> string \<Rightarrow> string" where
  "zfill w s = replicate (w - length s) (CHR ''0'') @ s"

definition strftime_Ymd :: "date \<Rightarrow> string" where
  "strftime_Ymd d = zfill 4 (show_nat (year d)) @ ''.'' @ zfill 2 (show_nat (month d)) @ ''.''
     @ zfill 2 (show_nat (day d))"

definition strftime_dmY :: "date \<Rightarrow> string" where
  "strftime_dmY d = zfill 2 (show_nat (day d)) @ ''.'' @ zfill 2 (show_nat (month d)) @ ''.''
     @ zfill 4 (show_nat (year d))"

text \<open>
  \<open>datetime.strptime(s, "%d.%m.%Y").date()\<close>. The library turns the format into the regular
  expression
  \<^verbatim>\<open>(3[0-1]|[1-2]\d|0[1-9]|[1-9]| [1-9])\.(1[0-2]|0[1-9]|[1-9])\.(\d\d\d\d)\<close>,
  matches it at the start of the text (alternatives in order, with backtracking), refuses
  text left over after the match, converts the three groups with \<open>int\<close> and builds the
  date. Every failure is a \<open>ValueError\<close>; \<open>None\<close> stands for it here, since the only caller
  replaces its message.
\<close>

definition in_class :: "char \<Rightarrow> char \<Rightarrow> char \<Rightarrow> bool" where
  "in_class lo hi c = ((of_char lo :: nat) \<le> of_char c \<and> (of_char c :: nat) \<le> of_char hi)"

fun one_char :: "(char \<Rightarrow> bool) \<Rightarrow> string \<Rightarrow> (string \<times> string) option" where
  "one_char p (a # r) = (if p a then Some ([a], r) else None)"
| "one_char p [] = None"

fun two_chars :: "(char \<Rightarrow> bool) \<Rightarrow> (char \<Rightarrow> bool) \<Rightarrow> string \<Rightarrow> (string \<times> string) option" where
  "two_chars p q (a # b # r) = (if p a \<and> q b then Some ([a, b], r) else None)"
| "two_chars p q _ = None"

fun four_chars :: "(char \<Rightarrow> bool) \<Rightarrow> string \<Rightarrow> (string \<times> string) option" where
  "four_chars p (a # b # c # d # r) = (if p a \<and> p b \<and> p c \<and> p d then Some ([a, b, c, d], r) else None)"
| "four_chars p _ = None"

definition re_alts :: "(string \<Rightarrow> (string \<times> string) option) list \<Rightarrow> string \<Rightarrow> (string \<times> string) list" where
  "re_alts alts s = List.map_filter (\<lambda>a. a s) alts"

definition re_d :: "string \<Rightarrow> (string \<times> string) list" where
  "re_d = re_alts
     [two_chars (\<lambda>c. c = CHR ''3'') (in_class (CHR ''0'') (CHR ''1'')),
      two_chars (in_class (CHR ''1'') (CHR ''2'')) isdecimal,
      two_chars (\<lambda>c. c = CHR ''0'') (in_class (CHR ''1'') (CHR ''9'')),
      one_char (in_class (CHR ''1'') (CHR ''9'')),
      two_chars (\<lambda>c. c = CHR '' '') (in_class (CHR ''1'') (CHR ''9''))]"

definition re_m :: "string \<Rightarrow> (string \<times> string) list" where
  "re_m = re_alts
     [two_chars (\<lambda>c. c = CHR ''1'') (in_class (CHR ''0'') (CHR ''2'')),
      two_chars (\<lambda>c. c = CHR ''0'') (in_class (CHR ''1'') (CHR ''9'')),
      one_char (in_class (CHR ''1'') (CHR ''9''))]"

definition re_Y :: "string \<Rightarrow> (string \<times> string) list" where
  "re_Y = re_alts [four_chars isdecimal]"

definition re_dot :: "string \<Rightarrow> (string \<times> string) list" where
  "re_dot = re_alts [one_char (\<lambda>c. c = CHR ''.'')]"

text \<open>All matches of the whole expression, the preferred one first.\<close>

definition re_dmY :: "string \<Rightarrow> ((string \<times> string \<times> string) \<times> string) list" where
  "re_dmY s = [((d, m, y), r5). (d, r1) \<leftarrow> re_d s, (x, r2) \<leftarrow> re_dot r1, (m, r3) \<leftarrow> re_m r2,
      (z, r4) \<leftarrow> re_dot r3, (y, r5) \<leftarrow> re_Y r4]"

text \<open>\<open>int(text)\<close> on a matched group: decimal digits, after an optional blank.\<close>

definition int_of_text :: "string \<Rightarrow> nat" where
  "int_of_text t = foldl (\<lambda>n c. 10 * n + (of_char c - 48)) 0 (dropWhile isspace t)"

definition strptime_dmY :: "string \<Rightarrow> date option" where
  "strptime_dmY s =
    (case re_dmY s of
       [] \<Rightarrow> None
     | ((d, m, y), rest) # _ \<Rightarrow>
         if rest \<noteq> [] then None
         else (case date_new (int_of_text y) (int_of_text m) (int_of_text d) of
                 Inl e \<Rightarrow> None
               | Inr dt \<Rightarrow> Some dt))"

text \<open>
  \<open>Birthday(value)\<close>: a date is taken as it is, a text is stripped and parsed; every
  \<open>ValueError\<close> of the parse is replaced by the class's own.
\<close>

datatype birthday_value = Date date | Text string

fun Birthday :: "birthday_value \<Rightarrow> error + date" where
  "Birthday (Date dt) = Inr dt"
| "Birthday (Text t) =
    (case strptime_dmY (strip t) of
       Some dt \<Rightarrow> Inr dt
     | None \<Rightarrow> Inl (ValueError ''Invalid date format. Use DD.MM.YYYY''))"

section \<open>Record\<close>

text \<open>
  A contact: \<open>name\<close> is \<open>name.value\<close>, \<open>phones\<close> the values of the phones in order,
  \<open>birthday\<close> the value of the birthday when one is set. A method that mutates the record
  returns the record after the call beside its outcome, so that what happens to the record
  when the method raises is part of the model.
\<close>

record Record =
  name :: string
  phones :: "string list"
  birthday :: "date option"

definition Record_init :: "string \<Rightarrow> error + Record" where
  "Record_init nm = (case Name nm of
     Inl e \<Rightarrow> Inl e
   | Inr v \<Rightarrow> Inr \<lparr>name = v, phones = [], birthday = None\<rparr>)"

definition add_phone :: "Record \<Rightarrow> string \<Rightarrow> (error + unit) \<times> Record" where
  "add_phone rec phone_str = (case Phone phone_str of
     Inl e \<Rightarrow> (Inl e, rec)
   | Inr p \<Rightarrow> (Inr (), rec\<lparr>phones := phones rec @ [p]\<rparr>))"

text \<open>
  \<open>edit_phone\<close>: the loop over \<open>enumerate(self.phones)\<close>; \<open>ps\<close> is the list, \<open>i\<close> the index
  of the first phone not yet visited and the third argument the phones not yet visited.
\<close>

fun edit_phone_loop :: "string list \<Rightarrow> nat \<Rightarrow> string list \<Rightarrow> string \<Rightarrow> string
    \<Rightarrow> (error + bool) \<times> string list" where
  "edit_phone_loop ps i [] old_phone new_phone = (Inr False, ps)"
| "edit_phone_loop ps i (p # rest) old_phone new_phone =
    (if p = old_phone
     then (case Phone new_phone of
             Inl e \<Rightarrow> (Inl e, ps)
           | Inr v \<Rightarrow> (Inr True, ps[i := v]))
     else edit_phone_loop ps (Suc i) rest old_phone new_phone)"

definition edit_phone :: "Record \<Rightarrow> string \<Rightarrow> string \<Rightarrow> (error + bool) \<times> Record" where
  "edit_phone rec old_phone new_phone =
    (case edit_phone_loop (phones rec) 0 (phones rec) old_phone new_phone of
       (res, ps) \<Rightarrow> (res, rec\<lparr>phones := ps\<rparr>))"

definition add_birthday :: "Record \<Rightarrow> string \<Rightarrow> (error + unit) \<times> Record" where
  "add_birthday rec bd_str = (case Birthday (Text bd_str) of
     Inl e \<Rightarrow> (Inl e, rec)
   | Inr dt \<Rightarrow> (Inr (), rec\<lparr>birthday := Some dt\<rparr>))"

section \<open>AddressBook\<close>

text \<open>
  The book is a \<open>dict\<close> from names to records. A \<open>dict\<close> keeps its keys in insertion order,
  which is the order \<open>get_upcoming_birthdays\<close> visits the records in, so the model is the
  list of its items: storing under a key that is present replaces the value in place,
  storing under a new key appends, deleting removes the item.
\<close>

type_synonym AddressBook = "(string \<times> Record) list"

fun dict_set :: "'k \<Rightarrow> 'v \<Rightarrow> ('k \<times> 'v) list \<Rightarrow> ('k \<times> 'v) list" where
  "dict_set k v [] = [(k, v)]"
| "dict_set k v ((k', v') # rest) = (if k' = k then (k, v) # rest else (k', v') # dict_set k v rest)"

fun dict_get :: "('k \<times> 'v) list \<Rightarrow> 'k \<Rightarrow> 'v option" where
  "dict_get [] k = None"
| "dict_get ((k', v') # rest) k = (if k' = k then Some v' else dict_get rest k)"

definition dict_contains :: "'k \<Rightarrow> ('k \<times> 'v) list \<Rightarrow> bool" where
  "dict_contains k d = (k \<in> set (map fst d))"

fun dict_del :: "'k \<Rightarrow> ('k \<times> 'v) list \<Rightarrow> ('k \<times> 'v) list" where
  "dict_del k [] = []"
| "dict_del k ((k', v') # rest) = (if k' = k then rest else (k', v') # dict_del k rest)"

definition dict_values :: "('k \<times> 'v) list \<Rightarrow> 'v list" where
  "dict_values d = map snd d"

definition add_record :: "AddressBook \<Rightarrow> Record \<Rightarrow> AddressBook" where
  "add_record book record = dict_set (name record) record book"

text \<open>\<open>AddressBook.find\<close> (named \<open>find_book\<close>: \<open>find\<close> is a list function of the library).\<close>

definition find_book :: "AddressBook \<Rightarrow> string \<Rightarrow> Record option" where
  "find_book book nm = dict_get book nm"

definition delete :: "AddressBook \<Rightarrow> string \<Rightarrow> AddressBook" where
  "delete book nm = (if dict_contains nm book then dict_del nm book else book)"

subsection \<open>Upcoming birthdays\<close>

text \<open>
  One item of the result: the dictionary with the keys \<open>name\<close> and \<open>congratulation_date\<close>.
\<close>

record entry =
  entry_name :: string
  congratulation_date :: string

text \<open>Lines 98 to 100: the birthday moved to this year, or to the next one.\<close>

definition candidate_date :: "date \<Rightarrow> date \<Rightarrow> error + date" where
  "candidate_date today bd =
    (case replace_year bd (year today) of
       Inl e \<Rightarrow> Inl e
     | Inr candidate \<Rightarrow>
         if date_lt candidate today then replace_year bd (year today + 1) else Inr candidate)"

text \<open>Lines 103 to 107: a Saturday (5) or a Sunday (6) moves to the Monday after.\<close>

definition congr_date_of :: "date \<Rightarrow> error + date" where
  "congr_date_of candidate =
    (if weekday candidate = 5 then date_add candidate 2
     else if weekday candidate = 6 then date_add candidate 1
     else Inr candidate)"

text \<open>The loop of lines 94 to 112 over the records, with \<open>result\<close> as accumulator.\<close>

fun upcoming_loop :: "date \<Rightarrow> date \<Rightarrow> Record list \<Rightarrow> entry list \<Rightarrow> error + entry list" where
  "upcoming_loop today end_day [] result = Inr result"
| "upcoming_loop today end_day (rec # recs) result =
    (case birthday rec of
       None \<Rightarrow> upcoming_loop today end_day recs result
     | Some bd \<Rightarrow>
        (case candidate_date today bd of
           Inl e \<Rightarrow> Inl e
         | Inr candidate \<Rightarrow>
             if date_le today candidate \<and> date_le candidate end_day
             then (case congr_date_of candidate of
                     Inl e \<Rightarrow> Inl e
                   | Inr congr_date \<Rightarrow>
                       upcoming_loop today end_day recs
                         (result @ [\<lparr>entry_name = name rec,
                                     congratulation_date = strftime_Ymd congr_date\<rparr>]))
             else upcoming_loop today end_day recs result))"

text \<open>
  \<open>get_upcoming_birthdays\<close>; \<open>today\<close> is what \<open>date.today()\<close> returns. \<open>list.sort\<close> is
  stable, as \<open>sort_key\<close> is, and compares the strings by code points.
\<close>

definition get_upcoming_birthdays :: "AddressBook \<Rightarrow> date \<Rightarrow> int \<Rightarrow> error + entry list" where
  "get_upcoming_birthdays book today days_ahead =
    (case date_add today days_ahead of
       Inl e \<Rightarrow> Inl e
     | Inr end_day \<Rightarrow>
        (case upcoming_loop today end_day (dict_values book) [] of
           Inl e \<Rightarrow> Inl e
         | Inr result \<Rightarrow> Inr (sort_key congratulation_date result)))"

text \<open>The call without \<open>days_ahead\<close>: the default of the parameter is 7.\<close>

definition get_upcoming_birthdays_default :: "AddressBook \<Rightarrow> date \<Rightarrow> error + entry list" where
  "get_upcoming_birthdays_default book today = get_upcoming_birthdays book today 7"

section \<open>Notions of the specification\<close>

text \<open>
  The specification's \<open>^\d{10}$\<close>: exactly ten decimal digits.
\<close>

definition ten_decimal_digits :: "string \<Rightarrow> bool" where
  "ten_decimal_digits s = (length s = 10 \<and> list_all isdecimal s)"

text \<open>The position of the first phone equal to \<open>x\<close> (the length of the list when there is none).\<close>

definition first_index :: "string list \<Rightarrow> string \<Rightarrow> nat" where
  "first_index ps x = length (takeWhile (\<lambda>p. p \<noteq> x) ps)"

text \<open>
  The invariant of the book: the keys are distinct (one record per name) and every key is
  the name of the record it maps to. \<open>book_op\<close> are the calls that the invariant is
  claimed for.
\<close>

definition book_inv :: "AddressBook \<Rightarrow> bool" where
  "book_inv book = (distinct (map fst book) \<and> list_all (\<lambda>(k, r). k = name r) book)"

datatype book_op = AddRecord Record | Find string | Delete string

fun apply_op :: "AddressBook \<Rightarrow> book_op \<Rightarrow> AddressBook" where
  "apply_op book (AddRecord r) = add_record book r"
| "apply_op book (Find nm) = book"
| "apply_op book (Delete nm) = delete book nm"

text \<open>
  The upcoming birthdays as the specification describes them. The candidate is the birthday
  with its year replaced by the current year, or by the next one when that date is before
  today. The window is counted in days: \<open>today \<le> candidate \<le> today + days_ahead\<close> on the
  day numbers. The congratulation date is the candidate moved by two days from a Saturday
  and by one day from a Sunday. The text form is four digits, a dot, two digits, a dot and
  two digits.
\<close>

definition spec_candidate :: "date \<Rightarrow> date \<Rightarrow> date" where
  "spec_candidate today bd =
     (if date_lt (bd\<lparr>year := year today\<rparr>) today then bd\<lparr>year := year today + 1\<rparr>
      else bd\<lparr>year := year today\<rparr>)"

definition in_window :: "date \<Rightarrow> int \<Rightarrow> date \<Rightarrow> bool" where
  "in_window today days_ahead c =
     (int (toordinal today) \<le> int (toordinal c) \<and> int (toordinal c) \<le> int (toordinal today) + days_ahead)"

definition included :: "date \<Rightarrow> int \<Rightarrow> Record \<Rightarrow> bool" where
  "included today days_ahead rec =
     (case birthday rec of None \<Rightarrow> False
      | Some bd \<Rightarrow> in_window today days_ahead (spec_candidate today bd))"

definition weekend_shift :: "date \<Rightarrow> nat" where
  "weekend_shift c = (if weekday c = 5 then 2 else if weekday c = 6 then 1 else 0)"

definition spec_congratulation :: "date \<Rightarrow> date" where
  "spec_congratulation c = fromordinal (toordinal c + weekend_shift c)"

definition YYYY_MM_DD :: "date \<Rightarrow> string" where
  "YYYY_MM_DD d =
     [digit_char (year d div 1000), digit_char (year d div 100 mod 10),
      digit_char (year d div 10 mod 10), digit_char (year d mod 10), CHR ''.'',
      digit_char (month d div 10), digit_char (month d mod 10), CHR ''.'',
      digit_char (day d div 10), digit_char (day d mod 10)]"

definition DD_MM_YYYY :: "date \<Rightarrow> string" where
  "DD_MM_YYYY d =
     [digit_char (day d div 10), digit_char (day d mod 10), CHR ''.'',
      digit_char (month d div 10), digit_char (month d mod 10), CHR ''.'',
      digit_char (year d div 1000), digit_char (year d div 100 mod 10),
      digit_char (year d div 10 mod 10), digit_char (year d mod 10)]"

definition spec_entry :: "date \<Rightarrow> int \<Rightarrow> Record \<Rightarrow> entry option" where
  "spec_entry today days_ahead rec =
     (case birthday rec of None \<Rightarrow> None
      | Some bd \<Rightarrow>
          if in_window today days_ahead (spec_candidate today bd)
          then Some \<lparr>entry_name = name rec,
                     congratulation_date = YYYY_MM_DD (spec_congratulation (spec_candidate today bd))\<rparr>
          else None)"

text \<open>Every birthday stored in the book is a valid date, as \<open>Birthday\<close> builds them.\<close>

definition valid_birthdays :: "AddressBook \<Rightarrow> bool" where
  "valid_birthdays book =
     list_all (\<lambda>rec. case birthday rec of None \<Rightarrow> True | Some bd \<Rightarrow> valid_date bd) (dict_values book)"

section \<open>The calendar: ordinals and dates\<close>

lemma div_decomp: "r < k \<Longrightarrow> (q * k + r) div k = (q::nat)"
  by simp

lemma mod_decomp: "(q * k + r) mod k = (r::nat) mod k"
  by simp

lemma dby_decomp:
  assumes "b < 4" "c < 25" "d < 4"
  shows "days_before_year (400*a + 100*b + 4*c + d + 1) = 146097*a + 36524*b + 1461*c + 365*d"
proof -
  let ?Y = "400*a + 100*b + 4*c + d"
  have e4: "?Y = (100*a + 25*b + c) * 4 + d" by simp
  have e100: "?Y = (4*a + b) * 100 + (4*c + d)" by simp
  have e400: "?Y = a * 400 + (100*b + 4*c + d)" by simp
  have d4: "?Y div 4 = 100*a + 25*b + c" unfolding e4 using assms(3) by (rule div_decomp)
  have "4*c + d < 100" using assms by simp
  then have d100: "?Y div 100 = 4*a + b" unfolding e100 by (rule div_decomp)
  have "100*b + 4*c + d < 400" using assms by simp
  then have d400: "?Y div 400 = a" unfolding e400 by (rule div_decomp)
  have "days_before_year (?Y + 1) = ?Y * 365 + ?Y div 4 - ?Y div 100 + ?Y div 400"
    unfolding days_before_year_def Let_def by simp
  also have "\<dots> = ?Y * 365 + (100*a + 25*b + c) - (4*a + b) + a" unfolding d4 d100 d400 ..
  also have "\<dots> = 146097*a + 36524*b + 1461*c + 365*d" by simp
  finally show ?thesis .
qed

lemma leap_decomp:
  assumes "b < 4" "c < 25" "d < 4"
  shows "is_leap (400*a + 100*b + 4*c + d + 1) = (d = 3 \<and> (c \<noteq> 24 \<or> b = 3))"
proof -
  let ?Y = "400*a + 100*b + 4*c + d + 1"
  have e4: "?Y = (100*a + 25*b + c) * 4 + (d + 1)" by simp
  have e100: "?Y = (4*a + b) * 100 + (4*c + d + 1)" by simp
  have e400: "?Y = a * 400 + (100*b + 4*c + d + 1)" by simp
  have m4: "?Y mod 4 = (d + 1) mod 4" unfolding e4 by (rule mod_decomp)
  have m100: "?Y mod 100 = (4*c + d + 1) mod 100" unfolding e100 by (rule mod_decomp)
  have m400: "?Y mod 400 = (100*b + 4*c + d + 1) mod 400" unfolding e400 by (rule mod_decomp)
  have a4: "((d + 1) mod 4 = 0) = (d = 3)"
  proof (cases "d = 3")
    case True then show ?thesis by simp
  next
    case False
    with assms(3) have "d + 1 < 4" by simp
    then show ?thesis using False by simp
  qed
  have l100: "4*c + d + 1 \<le> 100" using assms by simp
  have a100: "((4*c + d + 1) mod 100 = 0) = (4*c + d + 1 = 100)"
  proof (cases "4*c + d + 1 = 100")
    case True then show ?thesis by simp
  next
    case False
    with l100 have "4*c + d + 1 < 100" by simp
    then show ?thesis using False by simp
  qed
  have l400: "100*b + 4*c + d + 1 \<le> 400" using assms by simp
  have a400: "((100*b + 4*c + d + 1) mod 400 = 0) = (100*b + 4*c + d + 1 = 400)"
  proof (cases "100*b + 4*c + d + 1 = 400")
    case True then show ?thesis by simp
  next
    case False
    with l400 have "100*b + 4*c + d + 1 < 400" by simp
    then show ?thesis using False by simp
  qed
  have b100: "(4*c + d + 1 = 100) = (c = 24 \<and> d = 3)" using assms(2,3) by arith
  have b400: "(100*b + 4*c + d + 1 = 400) = (b = 3 \<and> c = 24 \<and> d = 3)" using assms by arith
  show ?thesis unfolding is_leap_def m4 m100 m400 a4 a100 a400 b100 b400 by blast
qed
lemma month_day_at:
  assumes k: "2 \<le> k" "k \<le> 12" and j: "j < 32" and n: "32 * k + j < 415"
  shows "case month_day (32 * k + j - 50) leap of (m, d) \<Rightarrow>
     1 \<le> m \<and> m \<le> 12 \<and> 1 \<le> d \<and> d \<le> (if m = 2 \<and> leap then 29 else DAYS_IN_MONTH ! m)
     \<and> DAYS_BEFORE_MONTH ! m + (if m > 2 \<and> leap then 1 else 0) + d = 32 * k + j - 50 + 1"
proof -
  from k have "k=2 \<or> k=3 \<or> k=4 \<or> k=5 \<or> k=6 \<or> k=7 \<or> k=8 \<or> k=9 \<or> k=10 \<or> k=11 \<or> k=12"
    by arith
  then consider "k=2"|"k=3"|"k=4"|"k=5"|"k=6"|"k=7"|"k=8"|"k=9"|"k=10"|"k=11"|"k=12"
    by blast
  then show ?thesis
  proof cases
    case 1
    have d: "(32 * 2 + j - 50 + 50) div 32 = 2" using j by simp
    show ?thesis unfolding 1 month_day_def Let_def d using j n[unfolded 1]
      by (cases leap; simp add: DAYS_BEFORE_MONTH_def DAYS_IN_MONTH_def; arith?)
  next
    case 2
    have d: "(32 * 3 + j - 50 + 50) div 32 = 3" using j by simp
    show ?thesis unfolding 2 month_day_def Let_def d using j n[unfolded 2]
      by (cases leap; simp add: DAYS_BEFORE_MONTH_def DAYS_IN_MONTH_def; arith?)
  next
    case 3
    have d: "(32 * 4 + j - 50 + 50) div 32 = 4" using j by simp
    show ?thesis unfolding 3 month_day_def Let_def d using j n[unfolded 3]
      by (cases leap; simp add: DAYS_BEFORE_MONTH_def DAYS_IN_MONTH_def; arith?)
  next
    case 4
    have d: "(32 * 5 + j - 50 + 50) div 32 = 5" using j by simp
    show ?thesis unfolding 4 month_day_def Let_def d using j n[unfolded 4]
      by (cases leap; simp add: DAYS_BEFORE_MONTH_def DAYS_IN_MONTH_def; arith?)
  next
    case 5
    have d: "(32 * 6 + j - 50 + 50) div 32 = 6" using j by simp
    show ?thesis unfolding 5 month_day_def Let_def d using j n[unfolded 5]
      by (cases leap; simp add: DAYS_BEFORE_MONTH_def DAYS_IN_MONTH_def; arith?)
  next
    case 6
    have d: "(32 * 7 + j - 50 + 50) div 32 = 7" using j by simp
    show ?thesis unfolding 6 month_day_def Let_def d using j n[unfolded 6]
      by (cases leap; simp add: DAYS_BEFORE_MONTH_def DAYS_IN_MONTH_def; arith?)
  next
    case 7
    have d: "(32 * 8 + j - 50 + 50) div 32 = 8" using j by simp
    show ?thesis unfolding 7 month_day_def Let_def d using j n[unfolded 7]
      by (cases leap; simp add: DAYS_BEFORE_MONTH_def DAYS_IN_MONTH_def; arith?)
  next
    case 8
    have d: "(32 * 9 + j - 50 + 50) div 32 = 9" using j by simp
    show ?thesis unfolding 8 month_day_def Let_def d using j n[unfolded 8]
      by (cases leap; simp add: DAYS_BEFORE_MONTH_def DAYS_IN_MONTH_def; arith?)
  next
    case 9
    have d: "(32 * 10 + j - 50 + 50) div 32 = 10" using j by simp
    show ?thesis unfolding 9 month_day_def Let_def d using j n[unfolded 9]
      by (cases leap; simp add: DAYS_BEFORE_MONTH_def DAYS_IN_MONTH_def; arith?)
  next
    case 10
    have d: "(32 * 11 + j - 50 + 50) div 32 = 11" using j by simp
    show ?thesis unfolding 10 month_day_def Let_def d using j n[unfolded 10]
      by (cases leap; simp add: DAYS_BEFORE_MONTH_def DAYS_IN_MONTH_def; arith?)
  next
    case 11
    have d: "(32 * 12 + j - 50 + 50) div 32 = 12" using j by simp
    show ?thesis unfolding 11 month_day_def Let_def d using j n[unfolded 11]
      by (cases leap; simp add: DAYS_BEFORE_MONTH_def DAYS_IN_MONTH_def; arith?)
  qed
qed

lemma month_day_ok:
  assumes "n < 365" "month_day n leap = (m, d)"
  shows "1 \<le> m \<and> m \<le> 12 \<and> 1 \<le> d \<and> d \<le> (if m = 2 \<and> leap then 29 else DAYS_IN_MONTH ! m)
     \<and> DAYS_BEFORE_MONTH ! m + (if m > 2 \<and> leap then 1 else 0) + d = n + 1"
proof (cases "n < 14")
  case True
  then have d: "(n + 50) div 32 = 1" by simp
  show ?thesis using assms(2) True unfolding month_day_def Let_def d
    by (auto simp: DAYS_BEFORE_MONTH_def DAYS_IN_MONTH_def)
next
  case False
  define k where "k = (n + 50) div 32"
  define j where "j = (n + 50) mod 32"
  have n: "n = 32 * k + j - 50" unfolding k_def j_def by simp
  have kj: "2 \<le> k" "k \<le> 12" "j < 32" "32 * k + j < 415"
    using False assms(1) unfolding k_def j_def by simp_all
  from month_day_at[OF kj, of leap] assms(2) show ?thesis unfolding n[symmetric] by simp
qed

lemma ord2ymd_inverse:
  assumes "1 \<le> n" "ord2ymd n = (y, m, d)"
  shows "ymd2ord y m d = n \<and> 1 \<le> y \<and> 1 \<le> m \<and> m \<le> 12 \<and> 1 \<le> d \<and> d \<le> days_in_month y m"
proof -
  define n0 where "n0 = n - 1"
  define a where "a = n0 div 146097"
  define r1 where "r1 = n0 mod 146097"
  define b where "b = r1 div 36524"
  define r2 where "r2 = r1 mod 36524"
  define c where "c = r2 div 1461"
  define r3 where "r3 = r2 mod 1461"
  define e where "e = r3 div 365"
  define r4 where "r4 = r3 mod 365"
  have eqs: "n = 146097 * a + r1 + 1" "r1 = 36524 * b + r2" "r2 = 1461 * c + r3" "r3 = 365 * e + r4"
    using assms(1) unfolding n0_def a_def r1_def b_def r2_def c_def r3_def e_def r4_def by simp_all
  have bnd: "r1 < 146097" "r2 < 36524" "r3 < 1461" "r4 < 365"
    unfolding r1_def r2_def r3_def r4_def by simp_all
  have "b < 5" unfolding b_def using bnd(1) by (intro less_mult_imp_div_less) simp
  moreover have "c < 25" unfolding c_def using bnd(2) by (intro less_mult_imp_div_less) simp
  moreover have "e < 5" unfolding e_def using bnd(3) by (intro less_mult_imp_div_less) simp
  ultimately have bb: "b \<le> 4" "c \<le> 24" "e \<le> 4" by simp_all
  have o: "ord2ymd n = (if e = 4 \<or> b = 4 then (a * 400 + 1 + b * 100 + c * 4 + e - 1, 12, 31)
      else (a * 400 + 1 + b * 100 + c * 4 + e, month_day r4 (e = 3 \<and> (c \<noteq> 24 \<or> b = 3))))"
    unfolding ord2ymd_def Let_def n0_def a_def r1_def b_def r2_def c_def r3_def e_def r4_def by simp
  show ?thesis
  proof (cases "b = 4")
    case True
    then have "r2 = 0" using eqs(2) bnd(1) by simp
    then have z: "r2 = 0" "c = 0" "r3 = 0" "e = 0" "r4 = 0"
      unfolding c_def r3_def e_def r4_def by simp_all
    have y: "y = 400 * a + 400" "m = 12" "d = 31" using o assms(2) True z by auto
    have dby: "days_before_year (400 * a + 100 * 3 + 4 * 24 + 3 + 1) = 146097*a + 36524*3 + 1461*24 + 365*3"
      by (rule dby_decomp) simp_all
    have lp: "is_leap (400 * a + 100 * 3 + 4 * 24 + 3 + 1)" by (subst leap_decomp) simp_all
    have ya: "y = 400 * a + 100 * 3 + 4 * 24 + 3 + 1" using y by simp
    show ?thesis unfolding ya y(2,3) ymd2ord_def days_before_month_def days_in_month_def dby
      using lp eqs True z by (simp add: DAYS_BEFORE_MONTH_def DAYS_IN_MONTH_def)
  next
    case nb: False
    with bb have b3: "b < 4" by simp
    show ?thesis
    proof (cases "e = 4")
      case True
      then have z4: "r4 = 0" using eqs(4) bnd(3) by simp
      have "1461 * c + 1460 < 36524" using eqs(3,4) bnd(2) True z4 by simp
      then have "c < 24" by simp
      note z = z4 this
      have y: "y = 400 * a + 100 * b + 4 * c + 3 + 1" "m = 12" "d = 31" using o assms(2) True by auto
      have dby: "days_before_year (400 * a + 100 * b + 4 * c + 3 + 1) = 146097*a + 36524*b + 1461*c + 365*3"
        using b3 z by (intro dby_decomp) simp_all
      have lp: "is_leap (400 * a + 100 * b + 4 * c + 3 + 1)" using b3 z by (subst leap_decomp) simp_all
      show ?thesis unfolding y ymd2ord_def days_before_month_def days_in_month_def dby
        using lp eqs True z by (simp add: DAYS_BEFORE_MONTH_def DAYS_IN_MONTH_def)
    next
      case False
      with bb have e3: "e < 4" by simp
      have c25: "c < 25" using bb by simp
      define lp where "lp = (e = 3 \<and> (c \<noteq> 24 \<or> b = 3))"
      obtain m' d' where md: "month_day r4 lp = (m', d')" by (cases "month_day r4 lp")
      have y: "y = 400 * a + 100 * b + 4 * c + e + 1" "m = m'" "d = d'"
        using o assms(2) False nb md unfolding lp_def by auto
      have dby: "days_before_year y = 146097*a + 36524*b + 1461*c + 365*e"
        unfolding y using b3 c25 e3 by (rule dby_decomp)
      have lpy: "is_leap y = lp" unfolding y lp_def using b3 c25 e3 by (rule leap_decomp)
      from month_day_ok[OF bnd(4) md] have mdk: "1 \<le> m'" "m' \<le> 12" "1 \<le> d'"
        "d' \<le> (if m' = 2 \<and> lp then 29 else DAYS_IN_MONTH ! m')"
        "DAYS_BEFORE_MONTH ! m' + (if m' > 2 \<and> lp then 1 else 0) + d' = r4 + 1" by blast+
      have A: "days_before_month y m + d = r4 + 1"
        unfolding days_before_month_def lpy using mdk(5) y(2,3) by simp
      have B: "d \<le> days_in_month y m"
        unfolding days_in_month_def lpy using mdk(4) y(2,3) by (auto split: if_splits)
      have C: "n = 146097*a + 36524*b + 1461*c + 365*e + r4 + 1" using eqs by simp
      have D: "ymd2ord y m d = n" unfolding ymd2ord_def dby C using A by simp
      show ?thesis using B D mdk(1,2,3) y by simp
    qed
  qed
qed

lemma div_step:
  assumes "0 < (y::nat)" "0 < k"
  shows "y div k = (y - 1) div k + (if y mod k = 0 then 1 else 0)"
proof -
  obtain x where y: "y = Suc x" using assms(1) by (cases y) auto
  show ?thesis unfolding y using assms(2) by (simp add: div_Suc mod_Suc)
qed

lemma dby_Suc:
  assumes "1 \<le> y"
  shows "days_before_year (Suc y) = days_before_year y + (if is_leap y then 366 else 365)"
proof -
  define A where "A = (y - 1) div 4"
  define B where "B = (y - 1) div 100"
  define C where "C = (y - 1) div 400"
  have y0: "0 < y" using assms by simp
  have s4: "y div 4 = A + (if y mod 4 = 0 then 1 else 0)" unfolding A_def using div_step[OF y0, of 4] by simp
  have s100: "y div 100 = B + (if y mod 100 = 0 then 1 else 0)" unfolding B_def using div_step[OF y0, of 100] by simp
  have s400: "y div 400 = C + (if y mod 400 = 0 then 1 else 0)" unfolding C_def using div_step[OF y0, of 400] by simp
  have BA: "B \<le> A" unfolding A_def B_def by (rule div_le_mono2) simp_all
  have i1: "y mod 4 = 0" if "y mod 100 = 0"
  proof -
    from that have "100 dvd y" by (simp add: dvd_eq_mod_eq_0)
    moreover have "(4::nat) dvd 100" by simp
    ultimately have "4 dvd y" by (rule dvd_trans[rotated])
    then show ?thesis by (simp add: dvd_eq_mod_eq_0)
  qed
  have i2: "y mod 100 = 0" if "y mod 400 = 0"
  proof -
    from that have "400 dvd y" by (simp add: dvd_eq_mod_eq_0)
    moreover have "(100::nat) dvd 400" by simp
    ultimately have "100 dvd y" by (rule dvd_trans[rotated])
    then show ?thesis by (simp add: dvd_eq_mod_eq_0)
  qed
  have d1: "days_before_year y = (y - 1) * 365 + A - B + C"
    unfolding days_before_year_def Let_def A_def B_def C_def ..
  have d2: "days_before_year (Suc y) = y * 365 + y div 4 - y div 100 + y div 400"
    unfolding days_before_year_def Let_def by simp
  have y1: "y * 365 = (y - 1) * 365 + 365" using y0 by (cases y) simp_all
  show ?thesis
  proof (cases "y mod 4 = 0")
    case False
    have n100: "y mod 100 \<noteq> 0" using i1 False by blast
    have "y mod 400 \<noteq> 0" using i2 n100 by blast
    with False n100 show ?thesis unfolding d1 d2 s4 s100 s400 y1 is_leap_def using BA by simp
  next
    case m4: True
    show ?thesis
    proof (cases "y mod 100 = 0")
      case False
      with i2 have "y mod 400 \<noteq> 0" by blast
      with False m4 show ?thesis unfolding d1 d2 s4 s100 s400 y1 is_leap_def using BA by simp
    next
      case m100: True
      show ?thesis
      proof (cases "y mod 400 = 0")
        case False
        with m4 m100 show ?thesis unfolding d1 d2 s4 s100 s400 y1 is_leap_def using BA by simp
      next
        case True
        with m4 m100 show ?thesis unfolding d1 d2 s4 s100 s400 y1 is_leap_def using BA by simp
      qed
    qed
  qed
qed

lemma dby_mono:
  assumes "1 \<le> y" "y \<le> y'"
  shows "days_before_year y \<le> days_before_year y'"
  using assms(2)
proof (induction rule: dec_induct)
  case base
  then show ?case by simp
next
  case (step k)
  with assms(1) have "1 \<le> k" by simp
  from dby_Suc[OF this] step show ?case by (simp split: if_splits)
qed

lemma dby_10000: "days_before_year 10000 = 3652059"
  by (simp add: days_before_year_def)

lemma dbm_Suc:
  assumes "1 \<le> m" "m < 12"
  shows "days_before_month y (Suc m) = days_before_month y m + days_in_month y m"
proof -
  from assms have "m=1 \<or> m=2 \<or> m=3 \<or> m=4 \<or> m=5 \<or> m=6 \<or> m=7 \<or> m=8 \<or> m=9 \<or> m=10 \<or> m=11"
    by arith
  then show ?thesis
    by (elim disjE) (simp_all add: days_before_month_def days_in_month_def DAYS_BEFORE_MONTH_def DAYS_IN_MONTH_def)
qed

lemma dbm_mono:
  assumes "1 \<le> m" "m \<le> m'" "m' \<le> 12"
  shows "days_before_month y m \<le> days_before_month y m'"
  using assms(2,3)
proof (induction rule: dec_induct)
  case base
  then show ?case by simp
next
  case (step k)
  with assms(1) have "1 \<le> k" "k < 12" by simp_all
  from dbm_Suc[OF this, of y] step show ?case by simp
qed

lemma dbm_12: "days_before_month y 12 + days_in_month y 12 = (if is_leap y then 366 else 365)"
  by (simp add: days_before_month_def days_in_month_def DAYS_BEFORE_MONTH_def DAYS_IN_MONTH_def)

lemma in_year:
  assumes "1 \<le> m" "m \<le> 12" "d \<le> days_in_month y m"
  shows "days_before_month y m + d \<le> (if is_leap y then 366 else 365)"
proof -
  have "days_before_month y m \<le> days_before_month y 12" using assms(1,2) by (intro dbm_mono) simp_all
  show ?thesis
  proof (cases "m = 12")
    case True
    with assms(3) dbm_12[of y] show ?thesis by (simp split: if_splits)
  next
    case False
    with assms have m: "m < 12" by simp
    have "days_before_month y m + d \<le> days_before_month y (Suc m)"
      using dbm_Suc[OF assms(1) m, of y] assms(3) by simp
    also have "\<dots> \<le> days_before_month y 12" using m assms(1) by (intro dbm_mono) simp_all
    also have "\<dots> \<le> (if is_leap y then 366 else 365)" using dbm_12[of y] by (simp split: if_splits)
    finally show ?thesis .
  qed
qed

lemma toordinal_bounds:
  assumes "valid_date d"
  shows "days_before_year (year d) < toordinal d" "toordinal d \<le> days_before_year (Suc (year d))"
    "1 \<le> toordinal d" "toordinal d \<le> 3652059"
proof -
  from assms have v: "1 \<le> year d" "year d \<le> 9999" "1 \<le> month d" "month d \<le> 12" "1 \<le> day d"
    "day d \<le> days_in_month (year d) (month d)" by (simp_all add: valid_date_def MINYEAR_def MAXYEAR_def)
  show a: "days_before_year (year d) < toordinal d" using v(5) by (simp add: toordinal_def ymd2ord_def)
  show b: "toordinal d \<le> days_before_year (Suc (year d))"
    using in_year[OF v(3,4,6)] dby_Suc[OF v(1)] by (simp add: toordinal_def ymd2ord_def split: if_splits)
  show "1 \<le> toordinal d" using a by simp
  have "days_before_year (Suc (year d)) \<le> days_before_year 10000" using v(2) by (intro dby_mono) simp_all
  with b show "toordinal d \<le> 3652059" by (simp add: dby_10000)
qed

lemma date_lt_toordinal:
  assumes "valid_date a" "valid_date b" "date_lt a b"
  shows "toordinal a < toordinal b"
proof -
  from assms(1) have va: "1 \<le> year a" "1 \<le> month a" "month a \<le> 12" "1 \<le> day a"
    "day a \<le> days_in_month (year a) (month a)" by (simp_all add: valid_date_def MINYEAR_def)
  from assms(2) have vb: "1 \<le> year b" "1 \<le> month b" "month b \<le> 12" "1 \<le> day b"
    by (simp_all add: valid_date_def MINYEAR_def)
  from assms(3) consider "year a < year b" | "year a = year b" "month a < month b"
    | "year a = year b" "month a = month b" "day a < day b"
    unfolding date_lt_def by blast
  then show ?thesis
  proof cases
    case 1
    have "toordinal a \<le> days_before_year (Suc (year a))" using toordinal_bounds(2)[OF assms(1)] .
    also have "\<dots> \<le> days_before_year (year b)" using 1 by (intro dby_mono) simp_all
    also have "\<dots> < toordinal b" using toordinal_bounds(1)[OF assms(2)] .
    finally show ?thesis .
  next
    case 2
    then have m: "month a < 12" using vb(3) by simp
    have "days_before_month (year a) (month a) + day a \<le> days_before_month (year a) (Suc (month a))"
      using dbm_Suc[OF va(2) m, of "year a"] va(5) by simp
    also have "\<dots> \<le> days_before_month (year a) (month b)" using 2 vb(3) by (intro dbm_mono) simp_all
    finally show ?thesis using 2 vb(4) by (simp add: toordinal_def ymd2ord_def)
  next
    case 3
    then show ?thesis by (simp add: toordinal_def ymd2ord_def)
  qed
qed

lemma date_trichotomy: "date_lt a b \<or> a = b \<or> date_lt b a"
  unfolding date_lt_def by (cases a; cases b) auto

lemma date_lt_iff:
  assumes "valid_date a" "valid_date b"
  shows "date_lt a b \<longleftrightarrow> toordinal a < toordinal b"
proof
  assume "date_lt a b" with assms show "toordinal a < toordinal b" by (rule date_lt_toordinal)
next
  assume h: "toordinal a < toordinal b"
  from date_trichotomy[of a b] show "date_lt a b"
  proof (elim disjE)
    assume "a = b" with h show ?thesis by simp
  next
    assume "date_lt b a"
    from date_lt_toordinal[OF assms(2,1) this] h show ?thesis by simp
  qed
qed

lemma date_le_iff:
  assumes "valid_date a" "valid_date b"
  shows "date_le a b \<longleftrightarrow> toordinal a \<le> toordinal b"
proof -
  have "a = b \<longleftrightarrow> toordinal a = toordinal b"
    using date_trichotomy[of a b] date_lt_toordinal[OF assms] date_lt_toordinal[OF assms(2,1)] by auto
  then show ?thesis unfolding date_le_def date_lt_iff[OF assms] by auto
qed

lemma fromordinal_valid:
  assumes "1 \<le> n" "n \<le> 3652059"
  shows "valid_date (fromordinal n)" "toordinal (fromordinal n) = n"
proof -
  obtain y m d where o: "ord2ymd n = (y, m, d)" by (cases "ord2ymd n")
  from ord2ymd_inverse[OF assms(1) o] have i: "ymd2ord y m d = n" "1 \<le> y" "1 \<le> m" "m \<le> 12" "1 \<le> d"
    "d \<le> days_in_month y m" by blast+
  have f: "fromordinal n = \<lparr>year = y, month = m, day = d\<rparr>" by (simp add: fromordinal_def o)
  show "toordinal (fromordinal n) = n" using i(1) by (simp add: f toordinal_def)
  have "y \<le> 9999"
  proof (rule ccontr)
    assume "\<not> y \<le> 9999"
    then have "10000 \<le> y" by simp
    then have "days_before_year 10000 \<le> days_before_year y" by (intro dby_mono) simp_all
    with i(1,5) assms(2) show False by (simp add: ymd2ord_def dby_10000)
  qed
  with i show "valid_date (fromordinal n)" by (simp add: f valid_date_def MINYEAR_def MAXYEAR_def)
qed

lemma fromordinal_toordinal:
  assumes "valid_date d"
  shows "fromordinal (toordinal d) = d"
proof -
  let ?e = "fromordinal (toordinal d)"
  have b: "1 \<le> toordinal d" "toordinal d \<le> 3652059" using toordinal_bounds[OF assms] by simp_all
  have v: "valid_date ?e" and t: "toordinal ?e = toordinal d" using fromordinal_valid[OF b] by simp_all
  from date_trichotomy[of ?e d] date_lt_toordinal[OF v assms] date_lt_toordinal[OF assms v] t
  show ?thesis by auto
qed

lemma date_add_ok:
  assumes "valid_date d" "date_add d k = Inr e"
  shows "valid_date e" "int (toordinal e) = int (toordinal d) + k"
proof -
  let ?o = "int (toordinal d) + k"
  from assms(2) have r: "0 < ?o" "?o \<le> 3652059" and e: "e = fromordinal (nat ?o)"
    by (auto simp: date_add_def Let_def MAXORDINAL_def split: if_splits)
  from r have b: "1 \<le> nat ?o" "nat ?o \<le> 3652059" by simp_all
  from fromordinal_valid[OF b] show "valid_date e" "int (toordinal e) = int (toordinal d) + k"
    using r by (simp_all add: e)
qed

section \<open>Phone\<close>

lemma isdecimal_not_space: "isdecimal c \<Longrightarrow> \<not> isspace c"
  by (auto simp: isdecimal_def isspace_def Let_def)

lemma isdecimal_isdigit: "isdecimal c \<Longrightarrow> isdigit c"
  by (auto simp: isdecimal_def isdigit_def Let_def)

lemma strip_id:
  assumes "s \<noteq> []" "\<not> isspace (hd s)" "\<not> isspace (last s)"
  shows "strip s = s"
proof -
  have a: "dropWhile isspace s = s" using assms by (cases s) auto
  have b: "dropWhile isspace (rev s) = rev s" using assms by (cases "rev s") (auto simp: last_rev hd_rev)
  show ?thesis by (simp add: strip_def a b)
qed

lemma strip_ten: "ten_decimal_digits s \<Longrightarrow> strip s = s"
proof -
  assume h: "ten_decimal_digits s"
  then have ne: "s \<noteq> []" by (auto simp: ten_decimal_digits_def)
  have "isdecimal (hd s)" "isdecimal (last s)" using h ne
    by (auto simp: ten_decimal_digits_def list_all_iff)
  then show ?thesis using ne by (intro strip_id) (auto dest: isdecimal_not_space)
qed

text \<open>
  C4, as amended. A text of exactly ten decimal digits is accepted and stored as it is.
  The text is stripped before it is checked, so a text whose stripped form is ten decimal
  digits is accepted too, and the stripped form is stored. Whenever the stripped form does
  not have ten characters, or has a character that \<open>str.isdigit\<close> refuses, the
  construction fails with the \<open>ValueError\<close> of the class.
\<close>

theorem Phone_accepts_stripped_ten_digits:
  "(ten_decimal_digits s \<longrightarrow> Phone s = Inr s) \<and>
   (ten_decimal_digits (strip s) \<longrightarrow> Phone s = Inr (strip s)) \<and>
   (length (strip s) \<noteq> 10 \<or> \<not> list_all isdigit (strip s) \<longrightarrow>
      Phone s = Inl (ValueError ''Phone must contain exactly 10 digits.''))"
proof (intro conjI impI)
  assume h: "ten_decimal_digits s"
  then have "strip s = s" by (rule strip_ten)
  moreover have "str_isdigit s" "length s = 10" using h
    by (auto simp: ten_decimal_digits_def str_isdigit_def list_all_iff dest: isdecimal_isdigit)
  ultimately show "Phone s = Inr s" by (simp add: Phone_def)
next
  assume h: "ten_decimal_digits (strip s)"
  then have "str_isdigit (strip s)" "length (strip s) = 10"
    by (auto simp: ten_decimal_digits_def str_isdigit_def list_all_iff dest: isdecimal_isdigit)
  then show "Phone s = Inr (strip s)" by (simp add: Phone_def)
next
  assume "length (strip s) \<noteq> 10 \<or> \<not> list_all isdigit (strip s)"
  then show "Phone s = Inl (ValueError ''Phone must contain exactly 10 digits.'')"
    by (auto simp: Phone_def str_isdigit_def)
qed

theorem Phone_accepts_stripped_ten_digits_witness:
  "ten_decimal_digits ''0123456789'' \<and> Phone ''0123456789'' = Inr ''0123456789''
   \<and> Phone '' 0123456789 '' = Inr ''0123456789''
   \<and> Phone ''12345'' = Inl (ValueError ''Phone must contain exactly 10 digits.'')"
proof -
  have a: "ten_decimal_digits ''0123456789''" by code_simp
  have b: "strip '' 0123456789 '' = ''0123456789''" by code_simp
  have c: "length (strip ''12345'') \<noteq> 10" by code_simp
  show ?thesis
    using Phone_accepts_stripped_ten_digits[of "''0123456789''"]
      Phone_accepts_stripped_ten_digits[of "'' 0123456789 ''"]
      Phone_accepts_stripped_ten_digits[of "''12345''"] a b c
    by simp
qed

text \<open>
  C4 as stated fails: a text with a leading blank is not ten decimal digits, and \<open>Phone\<close>
  accepts it.
\<close>

theorem Phone_whitespace_counterexample:
  "\<not> ten_decimal_digits '' 1234567890'' \<and> Phone '' 1234567890'' = Inr ''1234567890''"
  by code_simp

section \<open>Record.edit_phone\<close>

lemma edit_phone_loop_absent:
  "old_phone \<notin> set rest \<Longrightarrow> edit_phone_loop ps i rest old_phone new_phone = (Inr False, ps)"
  by (induction rest arbitrary: i) auto

lemma edit_phone_loop_present:
  assumes "old_phone \<in> set rest"
  shows "edit_phone_loop ps i rest old_phone new_phone =
    (case Phone new_phone of
       Inl e \<Rightarrow> (Inl e, ps)
     | Inr v \<Rightarrow> (Inr True, ps[i + length (takeWhile (\<lambda>p. p \<noteq> old_phone) rest) := v]))"
  using assms by (induction rest arbitrary: i) (auto split: sum.splits)

lemma first_index_props:
  "x \<in> set ps \<Longrightarrow> first_index ps x < length ps \<and> ps ! first_index ps x = x \<and>
     (\<forall>j < first_index ps x. ps ! j \<noteq> x)"
proof (induction ps)
  case Nil
  then show ?case by simp
next
  case (Cons p ps)
  show ?case
  proof (cases "p = x")
    case True
    then show ?thesis by (simp add: first_index_def)
  next
    case False
    with Cons.prems have "x \<in> set ps" by simp
    from Cons.IH[OF this] False show ?thesis
      by (auto simp: first_index_def nth_Cons split: nat.splits)
  qed
qed

text \<open>
  C5, as amended. When no phone equals \<open>old_phone\<close>, \<open>edit_phone\<close> returns \<open>False\<close> and
  leaves the record as it is, whatever \<open>new_phone\<close> is. When some phone equals
  \<open>old_phone\<close>, the new text is validated: if it is invalid the \<open>ValueError\<close> of \<open>Phone\<close>
  reaches the caller and the record is unchanged; if it is valid the result is \<open>True\<close> and
  the phone at the first matching position, and only that one, is replaced by the
  validated value (the stripped text).
\<close>

theorem edit_phone_replaces_first_match:
  "(old_phone \<notin> set (phones rec) \<longrightarrow> edit_phone rec old_phone new_phone = (Inr False, rec)) \<and>
   (old_phone \<in> set (phones rec) \<longrightarrow>
      first_index (phones rec) old_phone < length (phones rec) \<and>
      phones rec ! first_index (phones rec) old_phone = old_phone \<and>
      (\<forall>j < first_index (phones rec) old_phone. phones rec ! j \<noteq> old_phone) \<and>
      (\<forall>e. Phone new_phone = Inl e \<longrightarrow> edit_phone rec old_phone new_phone = (Inl e, rec)) \<and>
      (\<forall>v. Phone new_phone = Inr v \<longrightarrow>
         edit_phone rec old_phone new_phone =
           (Inr True, rec\<lparr>phones := (phones rec)[first_index (phones rec) old_phone := v]\<rparr>)))"
proof (intro conjI impI)
  assume "old_phone \<notin> set (phones rec)"
  then show "edit_phone rec old_phone new_phone = (Inr False, rec)"
    by (simp add: edit_phone_def edit_phone_loop_absent)
next
  assume h: "old_phone \<in> set (phones rec)"
  from first_index_props[OF h]
  show "first_index (phones rec) old_phone < length (phones rec)"
    and "phones rec ! first_index (phones rec) old_phone = old_phone"
    and "\<forall>j < first_index (phones rec) old_phone. phones rec ! j \<noteq> old_phone"
    by blast+
  show "\<forall>e. Phone new_phone = Inl e \<longrightarrow> edit_phone rec old_phone new_phone = (Inl e, rec)"
    using h by (simp add: edit_phone_def edit_phone_loop_present)
  show "\<forall>v. Phone new_phone = Inr v \<longrightarrow>
         edit_phone rec old_phone new_phone =
           (Inr True, rec\<lparr>phones := (phones rec)[first_index (phones rec) old_phone := v]\<rparr>)"
    using h by (simp add: edit_phone_def edit_phone_loop_present first_index_def)
qed

theorem edit_phone_replaces_first_match_witness:
  "edit_phone \<lparr>name = ''A'', phones = [''1111111111'', ''2222222222'', ''2222222222''], birthday = None\<rparr>
      ''2222222222'' '' 3333333333'' =
    (Inr True, \<lparr>name = ''A'', phones = [''1111111111'', ''3333333333'', ''2222222222''], birthday = None\<rparr>)
   \<and> edit_phone \<lparr>name = ''A'', phones = [''1111111111'', ''2222222222'', ''2222222222''], birthday = None\<rparr>
      ''2222222222'' ''33'' =
    (Inl (ValueError ''Phone must contain exactly 10 digits.''),
     \<lparr>name = ''A'', phones = [''1111111111'', ''2222222222'', ''2222222222''], birthday = None\<rparr>)
   \<and> edit_phone \<lparr>name = ''A'', phones = [''1111111111'', ''2222222222'', ''2222222222''], birthday = None\<rparr>
      ''4444444444'' ''3333333333'' =
    (Inr False, \<lparr>name = ''A'', phones = [''1111111111'', ''2222222222'', ''2222222222''], birthday = None\<rparr>)"
proof -
  let ?r = "\<lparr>name = ''A'', phones = [''1111111111'', ''2222222222'', ''2222222222''], birthday = None\<rparr>"
  have a: "''2222222222'' \<in> set (phones ?r)" by simp
  have b: "''4444444444'' \<notin> set (phones ?r)" by simp
  have c: "Phone '' 3333333333'' = Inr ''3333333333''" by code_simp
  have d: "Phone ''33'' = Inl (ValueError ''Phone must contain exactly 10 digits.'')" by code_simp
  have e: "first_index (phones ?r) ''2222222222'' = 1" by (simp add: first_index_def)
  show ?thesis
    using edit_phone_replaces_first_match[of "''2222222222''" ?r "'' 3333333333''"]
      edit_phone_replaces_first_match[of "''2222222222''" ?r "''33''"]
      edit_phone_replaces_first_match[of "''4444444444''" ?r "''3333333333''"]
      a b c d e
    by simp
qed

text \<open>
  C5 as stated fails: with an invalid new text and no phone equal to the old one, no
  error reaches the caller; the result is \<open>False\<close>.
\<close>

theorem edit_phone_invalid_new_counterexample:
  "Phone ''abc'' = Inl (ValueError ''Phone must contain exactly 10 digits.'') \<and>
   edit_phone \<lparr>name = ''A'', phones = [''1111111111''], birthday = None\<rparr> ''2222222222'' ''abc'' =
     (Inr False, \<lparr>name = ''A'', phones = [''1111111111''], birthday = None\<rparr>)"
  by code_simp

section \<open>AddressBook: the collection\<close>

lemma set_dict_set: "set (dict_set k v d) \<subseteq> insert (k, v) (set d)"
  by (induction d) (auto split: if_splits)

lemma map_fst_dict_set:
  "map fst (dict_set k v d) = (if k \<in> set (map fst d) then map fst d else map fst d @ [k])"
proof (induction d)
  case Nil
  then show ?case by simp
next
  case (Cons p d)
  obtain k' v' where p: "p = (k', v')" by (cases p)
  show ?case using Cons p by (cases "k' = k") simp_all
qed

lemma distinct_dict_set: "distinct (map fst d) \<Longrightarrow> distinct (map fst (dict_set k v d))"
  by (simp add: map_fst_dict_set)

lemma dict_del_filter: "distinct (map fst d) \<Longrightarrow> dict_del k d = filter (\<lambda>(k', v). k' \<noteq> k) d"
proof (induction d)
  case Nil
  then show ?case by simp
next
  case (Cons p d)
  obtain k' v' where p: "p = (k', v')" by (cases p)
  show ?case
  proof (cases "k' = k")
    case True
    with Cons.prems p have "k \<notin> fst ` set d" by auto
    then have "filter (\<lambda>(k', v). k' \<noteq> k) d = d"
      by (intro filter_True) (auto simp: image_iff)
    with True p show ?thesis by simp
  next
    case False
    with Cons p show ?thesis by simp
  qed
qed

lemma dict_del_absent: "k \<notin> set (map fst d) \<Longrightarrow> dict_del k d = d"
  by (induction d) auto

lemma set_dict_del: "set (dict_del k d) \<subseteq> set d"
  by (induction d) (auto split: if_splits)

lemma distinct_dict_del: "distinct (map fst d) \<Longrightarrow> distinct (map fst (dict_del k d))"
  by (simp add: dict_del_filter distinct_map_filter)

lemma dict_get_map_of: "dict_get d k = map_of d k"
  by (induction d) auto

lemma book_inv_add: "book_inv b \<Longrightarrow> book_inv (add_record b r)"
  unfolding book_inv_def add_record_def list_all_iff
  using set_dict_set[of "name r" r b] by (auto simp: distinct_dict_set)

lemma book_inv_delete: "book_inv b \<Longrightarrow> book_inv (delete b nm)"
  unfolding book_inv_def delete_def list_all_iff
  using set_dict_del[of nm b] by (auto simp: distinct_dict_del)

lemma book_inv_apply: "book_inv b \<Longrightarrow> book_inv (apply_op b x)"
  by (cases x) (simp_all add: book_inv_add book_inv_delete)

text \<open>
  C8. The empty book satisfies the invariant, and every book reached from a book that
  satisfies it by any sequence of \<open>add_record\<close>, \<open>find\<close> and \<open>delete\<close> satisfies it: the
  keys are distinct and each key is the name of its record, so \<open>find\<close> returns only
  records whose name is the name asked for.
\<close>

theorem book_inv_reachable:
  "book_inv [] \<and> (book_inv b \<longrightarrow> book_inv (foldl apply_op b ops) \<and>
     (\<forall>k r. find_book (foldl apply_op b ops) k = Some r \<longrightarrow> name r = k))"
proof -
  have a: "book_inv b \<Longrightarrow> book_inv (foldl apply_op b ops)" for b
    by (induction ops arbitrary: b) (simp_all add: book_inv_apply)
  have b: "book_inv c \<Longrightarrow> find_book c k = Some r \<Longrightarrow> name r = k" for c k r
    unfolding book_inv_def find_book_def dict_get_map_of list_all_iff
    by (auto dest: map_of_SomeD)
  show ?thesis using a b by (auto simp: book_inv_def)
qed

theorem book_inv_reachable_witness:
  "book_inv (foldl apply_op []
     [AddRecord \<lparr>name = ''A'', phones = [], birthday = None\<rparr>,
      AddRecord \<lparr>name = ''B'', phones = [], birthday = None\<rparr>,
      Find ''A'', Delete ''A'',
      AddRecord \<lparr>name = ''B'', phones = [''1111111111''], birthday = None\<rparr>]) \<and>
   foldl apply_op []
     [AddRecord \<lparr>name = ''A'', phones = [], birthday = None\<rparr>,
      AddRecord \<lparr>name = ''B'', phones = [], birthday = None\<rparr>,
      Find ''A'', Delete ''A'',
      AddRecord \<lparr>name = ''B'', phones = [''1111111111''], birthday = None\<rparr>] =
     [(''B'', \<lparr>name = ''B'', phones = [''1111111111''], birthday = None\<rparr>)]"
proof -
  let ?ops = "[AddRecord \<lparr>name = ''A'', phones = [], birthday = None\<rparr>,
      AddRecord \<lparr>name = ''B'', phones = [], birthday = None\<rparr>,
      Find ''A'', Delete ''A'',
      AddRecord \<lparr>name = ''B'', phones = [''1111111111''], birthday = None\<rparr>]"
  have a: "book_inv []" using book_inv_reachable[of "[]" "[]"] by simp
  have b: "foldl apply_op [] ?ops = [(''B'', \<lparr>name = ''B'', phones = [''1111111111''], birthday = None\<rparr>)]"
    by (simp add: add_record_def delete_def dict_contains_def)
  show ?thesis using book_inv_reachable[of "[]" ?ops] a b by simp
qed

text \<open>
  C9. Deleting a name that is not a key leaves the book as it is. Deleting a name that
  is a key removes that entry and nothing else: the name is no longer found, every other
  name is found as before, the other entries keep their order, and the book has one
  entry less.
\<close>

theorem delete_removes_only_that_entry:
  "(\<not> dict_contains nm book \<longrightarrow> delete book nm = book) \<and>
   (distinct (map fst book) \<and> dict_contains nm book \<longrightarrow>
      find_book (delete book nm) nm = None \<and>
      (\<forall>k. k \<noteq> nm \<longrightarrow> find_book (delete book nm) k = find_book book k) \<and>
      delete book nm = filter (\<lambda>(k, r). k \<noteq> nm) book \<and>
      Suc (length (delete book nm)) = length book)"
proof (intro conjI impI)
  show "\<not> dict_contains nm book \<Longrightarrow> delete book nm = book" by (simp add: delete_def)
next
  assume h: "distinct (map fst book) \<and> dict_contains nm book"
  then have d: "delete book nm = filter (\<lambda>(k, r). k \<noteq> nm) book"
    by (simp add: delete_def dict_del_filter)
  show "delete book nm = filter (\<lambda>(k, r). k \<noteq> nm) book" by (rule d)
  show "find_book (delete book nm) nm = None"
    unfolding d find_book_def dict_get_map_of by (induction book) auto
  show "\<forall>k. k \<noteq> nm \<longrightarrow> find_book (delete book nm) k = find_book book k"
    unfolding d find_book_def dict_get_map_of by (induction book) auto
  have "nm \<in> set (map fst book) \<Longrightarrow> Suc (length (dict_del nm book)) = length book"
  proof (induction book)
    case Nil
    then show ?case by simp
  next
    case (Cons p d)
    obtain k' v' where p: "p = (k', v')" by (cases p)
    show ?case using Cons p by (cases "k' = nm") simp_all
  qed
  with h have "Suc (length (dict_del nm book)) = length book"
    by (simp add: dict_contains_def)
  with h show "Suc (length (delete book nm)) = length book" by (simp add: delete_def)
qed

theorem delete_removes_only_that_entry_witness:
  "delete [(''A'', \<lparr>name = ''A'', phones = [], birthday = None\<rparr>),
           (''B'', \<lparr>name = ''B'', phones = [], birthday = None\<rparr>)] ''C'' =
     [(''A'', \<lparr>name = ''A'', phones = [], birthday = None\<rparr>),
      (''B'', \<lparr>name = ''B'', phones = [], birthday = None\<rparr>)] \<and>
   delete [(''A'', \<lparr>name = ''A'', phones = [], birthday = None\<rparr>),
           (''B'', \<lparr>name = ''B'', phones = [], birthday = None\<rparr>)] ''A'' =
     [(''B'', \<lparr>name = ''B'', phones = [], birthday = None\<rparr>)] \<and>
   find_book (delete [(''A'', \<lparr>name = ''A'', phones = [], birthday = None\<rparr>),
           (''B'', \<lparr>name = ''B'', phones = [], birthday = None\<rparr>)] ''A'') ''A'' = None"
proof -
  let ?b = "[(''A'', \<lparr>name = ''A'', phones = [], birthday = None\<rparr>),
           (''B'', \<lparr>name = ''B'', phones = [], birthday = None\<rparr>)]"
  have a: "\<not> dict_contains ''C'' ?b" by (simp add: dict_contains_def)
  have b: "distinct (map fst ?b) \<and> dict_contains ''A'' ?b" by (simp add: dict_contains_def)
  show ?thesis
    using delete_removes_only_that_entry[of "''C''" ?b] delete_removes_only_that_entry[of "''A''" ?b] a b
    by (simp add: find_book_def)
qed

end
